theory Spec2Isabelle
  imports Complex_Main "HOL-Library.Word"
begin

section \<open>JavaScript strings\<close>

text \<open>
  A JavaScript string is a sequence of UTF-16 code units; \<open>length\<close> counts code units
  and every index below is a code-unit index. String literals of the source are ASCII and
  are written through \<open>js\<close>. Indices and lengths are JavaScript numbers holding integers;
  they are modelled as \<open>int\<close> (a budget that is not an integer is outside the model).
\<close>

type_synonym cu = "16 word"
type_synonym jsstring = "cu list"

definition js :: "string \<Rightarrow> jsstring" where
  "js s = map (\<lambda>c. of_nat (of_char c)) s"

text \<open>\<open>occursAt s p k\<close>: the code units of \<open>p\<close> are those of \<open>s\<close> from index \<open>k\<close> on.\<close>

definition occursAt :: "jsstring \<Rightarrow> jsstring \<Rightarrow> nat \<Rightarrow> bool" where
  "occursAt s p k = (take (length p) (drop k s) = p)"

text \<open>The backward search of \<open>String.prototype.lastIndexOf\<close>, from index \<open>k\<close> down to 0;
  -1 when there is no occurrence.\<close>

fun searchBack :: "jsstring \<Rightarrow> jsstring \<Rightarrow> nat \<Rightarrow> int" where
  "searchBack s p 0 = (if occursAt s p 0 then 0 else - 1)"
| "searchBack s p (Suc k) = (if occursAt s p (Suc k) then int (Suc k) else searchBack s p k)"

text \<open>\<open>s.lastIndexOf(p, pos)\<close>: the position is clamped between 0 and
  \<open>s.length - p.length\<close>; the result is the largest index not above it at which \<open>p\<close> occurs.\<close>

definition lastIndexOf :: "jsstring \<Rightarrow> jsstring \<Rightarrow> int \<Rightarrow> int" where
  "lastIndexOf s p pos =
     (if length s < length p then - 1
      else searchBack s p (nat (min (max pos 0) (int (length s) - int (length p)))))"

text \<open>The relative index of \<open>String.prototype.slice\<close>: a negative argument counts from the
  end, and the result is clamped to the string.\<close>

definition relIndex :: "nat \<Rightarrow> int \<Rightarrow> nat" where
  "relIndex len i = (if i < 0 then nat (max (int len + i) 0) else min (nat i) len)"

text \<open>\<open>s.slice(start, end)\<close> and \<open>s.slice(start)\<close>.\<close>

definition slice :: "jsstring \<Rightarrow> int \<Rightarrow> int \<Rightarrow> jsstring" where
  "slice s start end =
     take (relIndex (length s) end - relIndex (length s) start) (drop (relIndex (length s) start) s)"

definition sliceFrom :: "jsstring \<Rightarrow> int \<Rightarrow> jsstring" where
  "sliceFrom s start = drop (relIndex (length s) start) s"

section \<open>The text chunker (services/geminiService.ts, splitTextSafe)\<close>

definition splitPoints :: "jsstring list" where
  "splitPoints = [js ''. '', js ''? '', js ''! '', js [CHR ''.'', CHR 0x0A], js '' '']"

text \<open>The \<open>for (const point of splitPoints)\<close> loop: the first marker, in list order, whose
  \<open>lastIndexOf\<close> lies strictly between \<open>start\<close> and \<open>end\<close> sets the new end
  (\<open>Some\<close>, \<open>foundSplit = true\<close>); \<open>None\<close> is \<open>foundSplit = false\<close>.\<close>

fun findSplit :: "jsstring \<Rightarrow> int \<Rightarrow> int \<Rightarrow> jsstring list \<Rightarrow> int option" where
  "findSplit text start end [] = None"
| "findSplit text start end (point # points) =
     (if lastIndexOf text point end > start \<and> lastIndexOf text point end < end
      then Some (lastIndexOf text point end + int (length point))
      else findSplit text start end points)"

text \<open>The value of \<open>end\<close> when the chunk is pushed: the marker cut, or the hard split.\<close>

definition chunkEnd :: "jsstring \<Rightarrow> int \<Rightarrow> int \<Rightarrow> int" where
  "chunkEnd text maxLength start =
     (case findSplit text start (start + maxLength) splitPoints of
        Some e \<Rightarrow> e
      | None \<Rightarrow> start + maxLength)"

text \<open>The \<open>while (start < text.length)\<close> loop. It need not terminate, so it lives in the
  option monad: \<open>None\<close> is a loop that never returns.\<close>

partial_function (option) splitLoop ::
  "jsstring \<Rightarrow> int \<Rightarrow> int \<Rightarrow> jsstring list \<Rightarrow> jsstring list option" where
  "splitLoop text maxLength start chunks =
     (if start < int (length text) then
        (if int (length text) - start \<le> maxLength then Some (chunks @ [sliceFrom text start])
         else splitLoop text maxLength (chunkEnd text maxLength start)
                (chunks @ [slice text start (chunkEnd text maxLength start)]))
      else Some chunks)"

declare splitLoop.simps [code]

definition splitTextSafe :: "jsstring \<Rightarrow> int \<Rightarrow> jsstring list option" where
  "splitTextSafe text maxLength = splitLoop text maxLength 0 []"

section \<open>Errors and collaborator calls\<close>

text \<open>\<open>new Error(message)\<close>. An awaited call of a collaborator either rejects (the
  \<open>await\<close> throws the given value) or resolves to a response.\<close>

datatype js_error = Error string

datatype 'a awaited = Rejects js_error | Resolves 'a

section \<open>Translation (services/geminiService.ts, translateText)\<close>

definition asciiLower :: "cu \<Rightarrow> cu" where
  "asciiLower c = (if 0x41 \<le> c \<and> c \<le> 0x5A then c + 0x20 else c)"

text \<open>\<open>String.prototype.toLowerCase\<close> replaces every code point by its Unicode lower-case
  mapping. On the ASCII range that is the map of A..Z to a..z. The Unicode tables for the
  other code units are not part of the repository and are a parameter: \<open>lowerNonAscii s i\<close>
  is what the conversion puts in the place of the non-ASCII code unit at index \<open>i\<close> of \<open>s\<close>
  (it may depend on the context, and on the other half of a surrogate pair).\<close>

definition toLowerCase :: "(jsstring \<Rightarrow> nat \<Rightarrow> jsstring) \<Rightarrow> jsstring \<Rightarrow> jsstring" where
  "toLowerCase lowerNonAscii s =
     concat (map (\<lambda>i. if s ! i < 0x80 then [asciiLower (s ! i)] else lowerNonAscii s i)
               [0..<length s])"

text \<open>\<open>s.includes(p)\<close> (named \<open>includesJS\<close> here): \<open>p\<close> occurs at some index of \<open>s\<close>.\<close>

definition includesJS :: "jsstring \<Rightarrow> jsstring \<Rightarrow> bool" where
  "includesJS s p = list_ex (occursAt s p) [0..<Suc (length s)]"

definition newline :: jsstring where
  "newline = [0x0A]"

definition doubleQuote :: jsstring where
  "doubleQuote = [0x22]"

text \<open>The initial value of \<open>prompt\<close> (line 84).\<close>

definition plainPrompt :: "jsstring \<Rightarrow> jsstring" where
  "plainPrompt targetLanguage =
     js ''Translate the following text into '' @ targetLanguage
     @ js ''. Ensure the translation is natural and suitable for an audiobook.''"

text \<open>The template literal appended for Hindi (lines 88 to 91), line breaks and
  indentation included.\<close>

definition hindiInstruction :: jsstring where
  "hindiInstruction =
     js '' '' @ newline
     @ js ''IMPORTANT INSTRUCTION: Use conversational, local speakable Hindi (Hinglish where appropriate for common technical or modern terms). ''
     @ newline
     @ js ''      - Do NOT use pure, formal, or Sanskritized Hindi (Shuddh Hindi).''
     @ newline
     @ js ''      - It should sound like a natural conversation between friends.''
     @ newline
     @ js ''      - Keep English words for terms like 'Computer', 'Internet', 'Office', etc., instead of translating them to complex Hindi equivalents.''"

definition translatePrompt :: "(jsstring \<Rightarrow> nat \<Rightarrow> jsstring) \<Rightarrow> jsstring \<Rightarrow> jsstring" where
  "translatePrompt lowerNonAscii targetLanguage =
     (if includesJS (toLowerCase lowerNonAscii targetLanguage) (js ''hindi'')
      then plainPrompt targetLanguage @ hindiInstruction
      else plainPrompt targetLanguage)"

text \<open>The request handed to \<open>ai.models.generateContent\<close>: the model name and the text of
  the only part.\<close>

record content_request =
  model :: string
  partText :: jsstring

definition translateRequest ::
  "(jsstring \<Rightarrow> nat \<Rightarrow> jsstring) \<Rightarrow> jsstring \<Rightarrow> jsstring \<Rightarrow> content_request" where
  "translateRequest lowerNonAscii text targetLanguage =
     \<lparr>model = ''gemini-2.5-flash'',
      partText = translatePrompt lowerNonAscii targetLanguage
        @ newline @ newline @ js ''Text to translate:'' @ newline
        @ doubleQuote @ text @ doubleQuote\<rparr>"

text \<open>\<open>response.text || ""\<close>: the text of the response may be absent (\<open>None\<close>).\<close>

definition textOrEmpty :: "jsstring option \<Rightarrow> jsstring" where
  "textOrEmpty responseText =
     (case responseText of None \<Rightarrow> [] | Some t \<Rightarrow> (if t = [] then [] else t))"

text \<open>\<open>translateText\<close>: the \<open>try\<close> block returns the text of the response, the \<open>catch\<close>
  block replaces whatever was thrown by one fixed error.\<close>

definition translateText ::
  "(jsstring \<Rightarrow> nat \<Rightarrow> jsstring) \<Rightarrow> (content_request \<Rightarrow> jsstring option awaited)
   \<Rightarrow> jsstring \<Rightarrow> jsstring \<Rightarrow> js_error + jsstring" where
  "translateText lowerNonAscii generateContent text targetLanguage =
     (case generateContent (translateRequest lowerNonAscii text targetLanguage) of
        Rejects error \<Rightarrow> Inl (Error ''Failed to translate text.'')
      | Resolves responseText \<Rightarrow> Inr (textOrEmpty responseText))"

text \<open>The spec's reading of the Hindi test, in its own words: the name contains
  \<open>needle\<close> as a substring up to the case of ASCII letters.\<close>

definition sameLetter :: "cu \<Rightarrow> cu \<Rightarrow> bool" where
  "sameLetter a b = (asciiLower a = asciiLower b)"

definition containsIgnoringCase :: "jsstring \<Rightarrow> jsstring \<Rightarrow> bool" where
  "containsIgnoringCase s needle =
     list_ex (\<lambda>k. length (take (length needle) (drop k s)) = length needle
                  \<and> list_all2 sameLetter (take (length needle) (drop k s)) needle)
       [0..<Suc (length s)]"

section \<open>The byte codec (utils/audioHelper)\<close>

type_synonym byte = "8 word"

text \<open>The three helpers that \<open>generateSpeech\<close> imports from utils/audioHelper. The
  synthesizer is modelled over any codec; a decoder returns \<open>Inl\<close> when it throws.\<close>

record codec =
  base64ToBytes :: "jsstring \<Rightarrow> js_error + byte list"
  bytesToBase64 :: "byte list \<Rightarrow> jsstring"

text \<open>Modelled from the spec: \<open>concatenateBytes\<close> of utils/audioHelper, which is not under
  src/ ("preserves input order; total length = sum of input lengths; empty input sequence
  yields a zero-length buffer").\<close>

definition concatenateBytes :: "byte list list \<Rightarrow> byte list" where
  "concatenateBytes buffers = concat buffers"

text \<open>Modelled from the spec: the base64 alphabet of \<open>base64ToBytes\<close> and \<open>bytesToBase64\<close>
  of utils/audioHelper, which is not under src/ ("no line breaks, no URL-safe variant"), and
  the helpers of the two functions: the index of a code unit in the alphabet, the 6-bit
  digits of a string, the bytes of a digit sequence, the removal of \<open>=\<close> padding.\<close>

definition base64Alphabet :: jsstring where
  "base64Alphabet = js ''ABCDEFGHIJKLMNOPQRSTUVWXYZabcdefghijklmnopqrstuvwxyz0123456789+/''"

fun position :: "'a list \<Rightarrow> 'a \<Rightarrow> nat option" where
  "position [] x = None"
| "position (y # ys) x = (if x = y then Some 0 else map_option Suc (position ys x))"

fun sextets :: "jsstring \<Rightarrow> nat list option" where
  "sextets [] = Some []"
| "sextets (c # cs) =
     (case position base64Alphabet c of
        None \<Rightarrow> None
      | Some d \<Rightarrow> map_option ((#) d) (sextets cs))"

fun unpack :: "nat list \<Rightarrow> byte list" where
  "unpack (a # b # c # d # rest) =
     [of_nat (a * 4 + b div 16), of_nat ((b mod 16) * 16 + c div 4), of_nat ((c mod 4) * 64 + d)]
     @ unpack rest"
| "unpack [a, b, c] = [of_nat (a * 4 + b div 16), of_nat ((b mod 16) * 16 + c div 4)]"
| "unpack [a, b] = [of_nat (a * 4 + b div 16)]"
| "unpack ds = []"

definition stripPadding :: "jsstring \<Rightarrow> jsstring" where
  "stripPadding s =
     (if 2 \<le> length s \<and> drop (length s - 2) s = js ''=='' then take (length s - 2) s
      else if 1 \<le> length s \<and> drop (length s - 1) s = js ''='' then take (length s - 1) s
      else s)"

text \<open>Modelled from the spec: \<open>base64ToBytes\<close> of utils/audioHelper, which is not under
  src/ ("fails with DecodeError on malformed input (non-alphabet characters); must reject
  rather than silently truncate").\<close>

definition specBase64ToBytes :: "jsstring \<Rightarrow> js_error + byte list" where
  "specBase64ToBytes s =
     (if length s mod 4 \<noteq> 0 then Inl (Error ''DecodeError'')
      else case sextets (stripPadding s) of
             None \<Rightarrow> Inl (Error ''DecodeError'')
           | Some ds \<Rightarrow> Inr (unpack ds))"

text \<open>Modelled from the spec: \<open>bytesToBase64\<close> of utils/audioHelper, which is not under
  src/ ("total encoding, must round-trip exactly with base64ToBytes"); \<open>pack\<close> gives the
  digits of the bytes and the number of padding characters.\<close>

fun pack :: "byte list \<Rightarrow> nat list \<times> nat" where
  "pack (x # y # z # rest) =
     (let (ds, pad) = pack rest in
      ([unat x div 4, (unat x mod 4) * 16 + unat y div 16, (unat y mod 16) * 4 + unat z div 64,
        unat z mod 64] @ ds, pad))"
| "pack [x, y] = ([unat x div 4, (unat x mod 4) * 16 + unat y div 16, (unat y mod 16) * 4], 1)"
| "pack [x] = ([unat x div 4, (unat x mod 4) * 16], 2)"
| "pack [] = ([], 0)"

definition specBytesToBase64 :: "byte list \<Rightarrow> jsstring" where
  "specBytesToBase64 bytes =
     (let (ds, pad) = pack bytes in map ((!) base64Alphabet) ds @ replicate pad (0x3D))"

text \<open>Modelled from the spec: the codec of utils/audioHelper made of the two functions
  above.\<close>

definition specCodec :: codec where
  "specCodec = \<lparr>base64ToBytes = specBase64ToBytes, bytesToBase64 = specBytesToBase64\<rparr>"

section \<open>Speech synthesis (services/geminiService.ts, generateSpeech)\<close>

definition TTS_CHUNK_SIZE :: int where
  "TTS_CHUNK_SIZE = 3000"

text \<open>The code units that \<open>String.prototype.trim\<close> strips: white space and line
  terminators.\<close>

definition isWhiteSpace :: "cu \<Rightarrow> bool" where
  "isWhiteSpace c =
     (c \<in> set [0x09, 0x0A, 0x0B, 0x0C, 0x0D, 0x20, 0xA0, 0x1680, 0x2028, 0x2029, 0x202F, 0x205F,
               0x3000, 0xFEFF]
      \<or> (0x2000 \<le> c \<and> c \<le> 0x200A))"

definition trim :: "jsstring \<Rightarrow> jsstring" where
  "trim s = rev (dropWhile isWhiteSpace (rev (dropWhile isWhiteSpace s)))"

text \<open>The request of one chunk, and the speech service: for the chunk with the given index
  in \<open>chunks.entries()\<close> the awaited call rejects, or resolves to a response of which the
  code reads \<open>candidates?.[0]?.content?.parts?.[0]?.inlineData?.data\<close> (\<open>None\<close> when some
  link of the chain is missing).\<close>

record speech_request =
  speechModel :: string
  chunkText :: jsstring
  voice :: jsstring

type_synonym speech_service = "nat \<Rightarrow> speech_request \<Rightarrow> jsstring option awaited"

definition speechRequest :: "jsstring \<Rightarrow> jsstring \<Rightarrow> speech_request" where
  "speechRequest chunk voiceName =
     \<lparr>speechModel = ''gemini-2.5-flash-preview-tts'', chunkText = chunk, voice = voiceName\<rparr>"

text \<open>The state of the \<open>for\<close> loop: \<open>audioParts\<close>, and the effects so far, namely the
  indices of the chunks for which a request was issued and of those that were warned
  about.\<close>

record synthesis =
  audioParts :: "byte list list"
  requested :: "nat list"
  warned :: "nat list"

text \<open>The loop over \<open>chunks.entries()\<close>. The first component is the error thrown inside
  the loop, if any; the loop stops there.\<close>

fun speechLoop ::
  "codec \<Rightarrow> speech_service \<Rightarrow> jsstring \<Rightarrow> (nat \<times> jsstring) list \<Rightarrow> synthesis
   \<Rightarrow> js_error option \<times> synthesis" where
  "speechLoop c generateContent voiceName [] st = (None, st)"
| "speechLoop c generateContent voiceName ((index, chunk) # rest) st =
     (if trim chunk = [] then speechLoop c generateContent voiceName rest st
      else
        (case generateContent index (speechRequest chunk voiceName) of
           Rejects error \<Rightarrow> (Some error, st\<lparr>requested := requested st @ [index]\<rparr>)
         | Resolves base64Audio \<Rightarrow>
             (case base64Audio of
                None \<Rightarrow>
                  speechLoop c generateContent voiceName rest
                    (st\<lparr>requested := requested st @ [index], warned := warned st @ [index]\<rparr>)
              | Some payload \<Rightarrow>
                  (if payload = [] then
                     speechLoop c generateContent voiceName rest
                       (st\<lparr>requested := requested st @ [index], warned := warned st @ [index]\<rparr>)
                   else
                     (case base64ToBytes c payload of
                        Inl error \<Rightarrow> (Some error, st\<lparr>requested := requested st @ [index]\<rparr>)
                      | Inr bytes \<Rightarrow>
                          speechLoop c generateContent voiceName rest
                            (st\<lparr>audioParts := audioParts st @ [bytes],
                               requested := requested st @ [index]\<rparr>))))))"

text \<open>The \<open>try\<close> block after the chunks are known: the loop, the check that some audio
  came back, the merge.\<close>

definition speechBody ::
  "codec \<Rightarrow> speech_service \<Rightarrow> jsstring \<Rightarrow> jsstring list \<Rightarrow> (js_error + jsstring) \<times> synthesis" where
  "speechBody c generateContent voiceName chunks =
     (case speechLoop c generateContent voiceName (enumerate 0 chunks)
             \<lparr>audioParts = [], requested = [], warned = []\<rparr> of
        (Some error, st) \<Rightarrow> (Inl error, st)
      | (None, st) \<Rightarrow>
          (if length (audioParts st) = 0 then (Inl (Error ''No audio generated from text.''), st)
           else (Inr (bytesToBase64 c (concatenateBytes (audioParts st))), st)))"

text \<open>\<open>generateSpeech\<close>: the \<open>catch\<close> block replaces whatever was thrown by one fixed
  error. The voice parameter defaults to Kore when it is absent. The result is \<open>None\<close> if
  the chunker does not return.\<close>

definition voiceOrDefault :: "jsstring option \<Rightarrow> jsstring" where
  "voiceOrDefault voiceName = (case voiceName of None \<Rightarrow> js ''Kore'' | Some v \<Rightarrow> v)"

definition generateSpeech ::
  "codec \<Rightarrow> speech_service \<Rightarrow> jsstring \<Rightarrow> jsstring option
   \<Rightarrow> ((js_error + jsstring) \<times> synthesis) option" where
  "generateSpeech c generateContent text voiceName =
     map_option
       (\<lambda>chunks.
          case speechBody c generateContent (voiceOrDefault voiceName) chunks of
            (Inl error, st) \<Rightarrow> (Inl (Error ''Failed to generate speech audio.''), st)
          | (Inr merged, st) \<Rightarrow> (Inr merged, st))
       (splitTextSafe text TTS_CHUNK_SIZE)"

text \<open>The spec's reading of the result, in its own words: the payload that the chunk with
  a given index yields (none for a chunk that is skipped, gets no payload, or an empty
  one), and the decoded bytes of the chunks that yield one, in chunk order.\<close>

definition payloadOf :: "speech_service \<Rightarrow> jsstring \<Rightarrow> nat \<times> jsstring \<Rightarrow> jsstring option" where
  "payloadOf generateContent voiceName ic =
     (if trim (snd ic) = [] then None
      else case generateContent (fst ic) (speechRequest (snd ic) voiceName) of
             Rejects error \<Rightarrow> None
           | Resolves None \<Rightarrow> None
           | Resolves (Some payload) \<Rightarrow> (if payload = [] then None else Some payload))"

definition rejectsAt :: "speech_service \<Rightarrow> jsstring \<Rightarrow> nat \<times> jsstring \<Rightarrow> bool" where
  "rejectsAt generateContent voiceName ic =
     (trim (snd ic) \<noteq> []
      \<and> (case generateContent (fst ic) (speechRequest (snd ic) voiceName) of
            Rejects error \<Rightarrow> True
          | Resolves r \<Rightarrow> False))"

definition decodes :: "codec \<Rightarrow> jsstring \<Rightarrow> bool" where
  "decodes c payload = (case base64ToBytes c payload of Inl error \<Rightarrow> False | Inr bytes \<Rightarrow> True)"

definition decoded :: "codec \<Rightarrow> jsstring \<Rightarrow> byte list" where
  "decoded c payload = (case base64ToBytes c payload of Inl error \<Rightarrow> [] | Inr bytes \<Rightarrow> bytes)"

definition presentPayloads :: "speech_service \<Rightarrow> jsstring \<Rightarrow> jsstring list \<Rightarrow> jsstring list" where
  "presentPayloads generateContent voiceName chunks =
     List.map_filter (payloadOf generateContent voiceName) (enumerate 0 chunks)"

section \<open>The waveform (components/AudioPlayer, drawWaveform)\<close>

text \<open>Samples are the numbers of a \<open>Float32Array\<close>; the loop only compares them, and they
  are modelled as reals (a NaN sample is outside the model). \<open>data[k]\<close> beyond the end of
  the array is \<open>undefined\<close>, and both comparisons with it are false.\<close>

definition readSample :: "real list \<Rightarrow> nat \<Rightarrow> real option" where
  "readSample data k = (if k < length data then Some (data ! k) else None)"

text \<open>One round of the inner loop, on the pair \<open>(min, max)\<close>.\<close>

definition scanSample :: "real list \<Rightarrow> nat \<Rightarrow> nat \<Rightarrow> nat \<Rightarrow> real \<times> real \<Rightarrow> real \<times> real" where
  "scanSample data step i j acc =
     (case readSample data (i * step + j) of
        None \<Rightarrow> acc
      | Some datum \<Rightarrow>
          (if datum < fst acc then datum else fst acc,
           if datum > snd acc then datum else snd acc))"

text \<open>The pair \<open>(min, max)\<close> of column \<open>i\<close> when \<open>fillRect\<close> is called: both start at
  1.0 and -1.0.\<close>

definition column :: "real list \<Rightarrow> nat \<Rightarrow> nat \<Rightarrow> real \<times> real" where
  "column data step i = fold (scanSample data step i) [0..<step] (1.0, - 1.0)"

definition stepOf :: "real list \<Rightarrow> nat \<Rightarrow> nat" where
  "stepOf data width = nat \<lceil>real (length data) / real width\<rceil>"

text \<open>The columns that \<open>drawWaveform\<close> draws for a canvas of the given width, in the order
  of the outer loop; column \<open>i\<close> is drawn by
  \<open>fillRect(i, (1 + min) * amp, 1, Math.max(1, (max - min) * amp))\<close>.\<close>

definition drawWaveform :: "real list \<Rightarrow> nat \<Rightarrow> (real \<times> real) list" where
  "drawWaveform data width = map (column data (stepOf data width)) [0..<width]"

text \<open>The spec's window of column \<open>i\<close>, in its own words: the contiguous run of
  \<open>ceil(sampleCount / columnCount)\<close> samples that starts at \<open>i\<close> times that size; it is
  shorter, or empty, at the end of the array. The ceiling is taken in the natural
  numbers.\<close>

definition ceilDiv :: "nat \<Rightarrow> nat \<Rightarrow> nat" where
  "ceilDiv n w = (n + w - 1) div w"

definition window :: "real list \<Rightarrow> nat \<Rightarrow> nat \<Rightarrow> real list" where
  "window data width i =
     take (ceilDiv (length data) width) (drop (i * ceilDiv (length data) width) data)"

section \<open>The spec's chunk bound, and one entry of the Unicode tables\<close>

text \<open>The spec's bound (a) on a chunk, in its own words: at most \<open>maxLength\<close> code units,
  except a chunk that is one indivisible run, that is, contains none of the boundary
  markers. A text has no long run when each of its runs of \<open>maxLength + 1\<close> code units
  contains a marker, so that no chunk of it can fall under the exception.\<close>

definition indivisible :: "jsstring \<Rightarrow> bool" where
  "indivisible d = list_all (\<lambda>p. \<not> includesJS d p) splitPoints"

definition withinBound :: "int \<Rightarrow> jsstring \<Rightarrow> bool" where
  "withinBound maxLength d = (int (length d) \<le> maxLength \<or> indivisible d)"

definition noLongRun :: "int \<Rightarrow> jsstring \<Rightarrow> bool" where
  "noLongRun maxLength text =
     list_all (\<lambda>a. \<not> indivisible (take (nat maxLength + 1) (drop a text)))
       [0..<length text - nat maxLength]"

text \<open>The entry of the Unicode lower-case tables for U+0130, the capital I with a dot
  above: \<open>toLowerCase\<close> turns it into U+0069 U+0307, an \<open>i\<close> and a combining dot. This
  table leaves every other code unit outside ASCII as it is.\<close>

definition lowerDottedI :: "jsstring \<Rightarrow> nat \<Rightarrow> jsstring" where
  "lowerDottedI s i = (if s ! i = 0x130 then [0x69, 0x307] else [s ! i])"

section \<open>Properties of the text chunker\<close>

lemma searchBack_range: "- 1 \<le> searchBack s p k \<and> searchBack s p k \<le> int k"
  by (induction k) auto

lemma searchBack_none: "(\<And>j. j \<le> k \<Longrightarrow> \<not> occursAt s p j) \<Longrightarrow> searchBack s p k = - 1"
  by (induction k) auto

lemma lastIndexOf_upper: "lastIndexOf s p pos + int (length p) \<le> int (length s) \<or> lastIndexOf s p pos = - 1"
proof (cases "length s < length p")
  case True
  then show ?thesis by (simp add: lastIndexOf_def)
next
  case False
  let ?k = "nat (min (max pos 0) (int (length s) - int (length p)))"
  have "searchBack s p ?k \<le> int ?k" using searchBack_range by blast
  moreover have "int ?k \<le> int (length s) - int (length p)" using False by simp
  ultimately show ?thesis using False by (simp add: lastIndexOf_def)
qed

lemma findSplit_Some:
  "findSplit text start end pts = Some e \<Longrightarrow>
   \<exists>p\<in>set pts. start < lastIndexOf text p end \<and> lastIndexOf text p end < end
      \<and> e = lastIndexOf text p end + int (length p)"
  by (induction pts) (auto split: if_splits)

lemma findSplit_empty_window: "end \<le> start \<Longrightarrow> findSplit text start end pts = None"
  by (induction pts) auto

lemma chunkEnd_advances:
  assumes "0 \<le> start" "1 \<le> maxLength" "maxLength < int (length text) - start"
  shows "start < chunkEnd text maxLength start \<and> chunkEnd text maxLength start \<le> int (length text)"
proof (cases "findSplit text start (start + maxLength) splitPoints")
  case None
  then show ?thesis using assms by (simp add: chunkEnd_def)
next
  case (Some e)
  then obtain p where p: "start < lastIndexOf text p (start + maxLength)"
    "e = lastIndexOf text p (start + maxLength) + int (length p)"
    using findSplit_Some by blast
  have "lastIndexOf text p (start + maxLength) \<noteq> - 1" using p(1) assms(1) by simp
  then have "e \<le> int (length text)" using lastIndexOf_upper [of "text" p "start + maxLength"] p(2) by simp
  moreover have "start < e" using p by simp
  ultimately show ?thesis using Some by (simp add: chunkEnd_def)
qed

lemma splitLoop_done:
  "\<not> start < int (length text) \<Longrightarrow> splitLoop text maxLength start chunks = Some chunks"
  by (subst splitLoop.simps) simp

lemma splitLoop_last:
  "start < int (length text) \<Longrightarrow> int (length text) - start \<le> maxLength \<Longrightarrow>
   splitLoop text maxLength start chunks = Some (chunks @ [sliceFrom text start])"
  by (subst splitLoop.simps) simp

lemma splitLoop_step:
  "start < int (length text) \<Longrightarrow> \<not> int (length text) - start \<le> maxLength \<Longrightarrow>
   splitLoop text maxLength start chunks =
   splitLoop text maxLength (chunkEnd text maxLength start)
     (chunks @ [slice text start (chunkEnd text maxLength start)])"
  by (subst splitLoop.simps) simp

lemma sliceFrom_drop: "0 \<le> start \<Longrightarrow> sliceFrom s start = drop (nat start) s"
  by (cases "nat start \<le> length s") (simp_all add: sliceFrom_def relIndex_def min_def)

lemma relIndex_inside: "0 \<le> i \<Longrightarrow> i \<le> int len \<Longrightarrow> relIndex len i = nat i"
  by (simp add: relIndex_def min_def nat_le_iff)

lemma slice_take_drop:
  "0 \<le> start \<Longrightarrow> start \<le> e \<Longrightarrow> e \<le> int (length s) \<Longrightarrow>
   slice s start e = take (nat e - nat start) (drop (nat start) s)"
  by (simp add: slice_def relIndex_inside)

lemma slice_then_rest:
  assumes "0 \<le> start" "start \<le> e" "e \<le> int (length s)"
  shows "slice s start e @ drop (nat e) s = drop (nat start) s"
proof -
  have "nat start \<le> nat e" using assms by simp
  then have "drop (nat e) s = drop (nat e - nat start) (drop (nat start) s)"
    by simp
  then show ?thesis using assms by (simp add: slice_take_drop del: drop_drop)
qed

lemma splitLoop_total:
  assumes "1 \<le> maxLength"
  shows "0 \<le> start \<Longrightarrow>
         \<exists>cs. splitLoop text maxLength start chunks = Some (chunks @ cs)
             \<and> concat cs = drop (nat start) text"
proof (induction "length text - nat start" arbitrary: start chunks rule: less_induct)
  case less
  show ?case
  proof (cases "start < int (length text)")
    case False
    then show ?thesis using less.prems by (simp add: splitLoop_done)
  next
    case inside: True
    show ?thesis
    proof (cases "int (length text) - start \<le> maxLength")
      case True
      then show ?thesis using inside less.prems by (simp add: splitLoop_last sliceFrom_drop)
    next
      case False
      let ?e = "chunkEnd text maxLength start"
      have adv: "start < ?e" "?e \<le> int (length text)"
        using chunkEnd_advances [of start maxLength "text"] assms less.prems False by auto
      have "length text - nat ?e < length text - nat start"
        using adv inside less.prems by linarith
      moreover have "0 \<le> ?e" using adv less.prems by simp
      ultimately obtain cs where cs:
        "splitLoop text maxLength ?e (chunks @ [slice text start ?e]) = Some ((chunks @ [slice text start ?e]) @ cs)"
        "concat cs = drop (nat ?e) text"
        using less.hyps [of ?e "chunks @ [slice text start ?e]"] by blast
      have "concat (slice text start ?e # cs) = drop (nat start) text"
        using cs(2) slice_then_rest [of start ?e "text"] adv less.prems by simp
      then show ?thesis
        using cs(1) splitLoop_step [OF inside False, of chunks] by (intro exI [of _ "slice text start ?e # cs"]) simp
    qed
  qed
qed

lemma splitLoop_diverges:
  assumes "splitLoop text maxLength start chunks = Some y"
  shows "text \<noteq> [] \<Longrightarrow> maxLength \<le> 0 \<Longrightarrow> start \<le> 0 \<Longrightarrow> False"
  using assms
proof (induction rule: splitLoop.raw_induct [rotated 1, consumes 1])
  case (1 loop t maxLength start chunks y)
  have e: "chunkEnd t maxLength start = start + maxLength"
    using "1.prems"(2) by (simp add: chunkEnd_def findSplit_empty_window)
  have "0 < length t" using "1.prems"(1) by simp
  then have inside: "start < int (length t)" "\<not> int (length t) - start \<le> maxLength"
    using "1.prems"(2,3) by linarith+
  with "1.hyps" have "loop t maxLength (chunkEnd t maxLength start)
          (chunks @ [slice t start (chunkEnd t maxLength start)]) = Some y"
    by simp
  from "1.IH" [OF this "1.prems"(1,2)] show ?case using e "1.prems"(2,3) by simp
qed

text \<open>
  Claim C1. For every string and every budget \<open>maxLength \<ge> 1\<close>, \<open>splitTextSafe\<close> returns,
  and the chunks it returns, concatenated in order, are exactly the text: nothing is dropped
  or duplicated at a chunk boundary.
\<close>

theorem splitTextSafe_concat:
  assumes "1 \<le> maxLength"
  shows "\<exists>chunks. splitTextSafe text maxLength = Some chunks \<and> concat chunks = text"
  using splitLoop_total [OF assms, of 0 "text" "[]"] by (simp add: splitTextSafe_def)

theorem splitTextSafe_concat_witness:
  "(1::int) \<le> 20
   \<and> (\<exists>chunks. splitTextSafe (js ''Hello world. Next sentence here'') 20 = Some chunks
         \<and> concat chunks = js ''Hello world. Next sentence here'')"
  using splitTextSafe_concat [of 20 "js ''Hello world. Next sentence here''"] by simp

text \<open>
  Claim C9. For a budget \<open>maxLength \<ge> 1\<close> the loop of \<open>splitTextSafe\<close> terminates on every
  string: in an iteration that cuts (cursor inside the text, more than \<open>maxLength\<close> code units
  left) the new cursor, whether it comes from a marker or from the hard split, is strictly
  after the old one and not beyond the end of the text. For a budget \<open>maxLength \<le> 0\<close> and a
  non-empty string the loop never returns.
\<close>

theorem splitTextSafe_terminates:
  "(1 \<le> maxLength \<longrightarrow> (\<exists>chunks. splitTextSafe text maxLength = Some chunks))
   \<and> (1 \<le> maxLength \<and> 0 \<le> start \<and> maxLength < int (length text) - start \<longrightarrow>
        start < chunkEnd text maxLength start
        \<and> chunkEnd text maxLength start \<le> int (length text))
   \<and> (maxLength \<le> 0 \<and> text \<noteq> [] \<longrightarrow> splitTextSafe text maxLength = None)"
proof (intro conjI impI)
  assume "1 \<le> maxLength"
  then show "\<exists>chunks. splitTextSafe text maxLength = Some chunks"
    using splitLoop_total [of maxLength 0 "text" "[]"] by (auto simp: splitTextSafe_def)
next
  assume "1 \<le> maxLength \<and> 0 \<le> start \<and> maxLength < int (length text) - start"
  then show "start < chunkEnd text maxLength start"
    and "chunkEnd text maxLength start \<le> int (length text)"
    using chunkEnd_advances [of start maxLength "text"] by simp_all
next
  assume "maxLength \<le> 0 \<and> text \<noteq> []"
  then have "splitLoop text maxLength 0 [] \<noteq> Some y" for y
    using splitLoop_diverges [of "text" maxLength 0 "[]" y] by auto
  then show "splitTextSafe text maxLength = None"
    by (cases "splitLoop text maxLength 0 []") (auto simp: splitTextSafe_def)
qed

theorem splitTextSafe_terminates_witness:
  "(\<exists>chunks. splitTextSafe (js ''abcdef'') 2 = Some chunks)
   \<and> 0 < chunkEnd (js ''abcdef'') 2 0 \<and> chunkEnd (js ''abcdef'') 2 0 \<le> 6
   \<and> splitTextSafe (js ''abcdef'') 0 = None"
  using splitTextSafe_terminates [of 2 "js ''abcdef''" 0]
    splitTextSafe_terminates [of 0 "js ''abcdef''" 0]
  by (simp add: js_def)

text \<open>
  Claim C2. The claim bounds every chunk by \<open>maxLength\<close> unless the chunk is one run without
  a boundary marker. The code tests the index where a marker starts against the candidate
  end, and cuts after the marker: a two-unit marker that starts on the last allowed index
  gives a chunk of \<open>maxLength + 1\<close> code units that contains a marker. Here the budget is 5
  and the first chunk has 6 code units, the last two being the marker it was cut at.
\<close>

theorem splitTextSafe_exceeds_budget:
  "splitTextSafe (js ''aaaa. bbbb'') 5 = Some [js ''aaaa. '', js ''bbbb'']
   \<and> length (js ''aaaa. '') = 6
   \<and> occursAt (js ''aaaa. '') (js ''. '') 4"
  by code_simp

lemma splitPoints_short: "p \<in> set splitPoints \<Longrightarrow> length p \<le> 2"
  by (auto simp: splitPoints_def js_def)

lemma chunkEnd_overshoot: "chunkEnd text maxLength start \<le> start + maxLength + 1"
proof (cases "findSplit text start (start + maxLength) splitPoints")
  case None
  then show ?thesis by (simp add: chunkEnd_def)
next
  case (Some e)
  then obtain p where p: "p \<in> set splitPoints"
    "lastIndexOf text p (start + maxLength) < start + maxLength"
    "e = lastIndexOf text p (start + maxLength) + int (length p)"
    using findSplit_Some by blast
  then show ?thesis using Some splitPoints_short [OF p(1)] by (simp add: chunkEnd_def)
qed

lemma splitLoop_chunk_lengths:
  assumes "1 \<le> maxLength"
  shows "0 \<le> start \<Longrightarrow>
         \<exists>cs. splitLoop text maxLength start chunks = Some (chunks @ cs)
             \<and> (\<forall>c\<in>set cs. c \<noteq> [] \<and> int (length c) \<le> maxLength + 1)"
proof (induction "length text - nat start" arbitrary: start chunks rule: less_induct)
  case less
  show ?case
  proof (cases "start < int (length text)")
    case False
    then show ?thesis using less.prems by (simp add: splitLoop_done)
  next
    case inside: True
    show ?thesis
    proof (cases "int (length text) - start \<le> maxLength")
      case True
      have "length (sliceFrom text start) = length text - nat start"
        using less.prems by (simp add: sliceFrom_drop)
      then have "0 < length (sliceFrom text start)" "int (length (sliceFrom text start)) \<le> maxLength + 1"
        using True inside less.prems by linarith+
      then show ?thesis using True inside by (simp add: splitLoop_last)
    next
      case False
      let ?e = "chunkEnd text maxLength start"
      have adv: "start < ?e" "?e \<le> int (length text)"
        using chunkEnd_advances [of start maxLength "text"] assms less.prems False by auto
      have "length text - nat ?e < length text - nat start"
        using adv inside less.prems by linarith
      moreover have "0 \<le> ?e" using adv less.prems by simp
      ultimately obtain cs where cs:
        "splitLoop text maxLength ?e (chunks @ [slice text start ?e]) = Some ((chunks @ [slice text start ?e]) @ cs)"
        "\<forall>c\<in>set cs. c \<noteq> [] \<and> int (length c) \<le> maxLength + 1"
        using less.hyps [of ?e "chunks @ [slice text start ?e]"] by blast
      have "length (slice text start ?e) = nat ?e - nat start"
        using adv less.prems by (simp add: slice_take_drop)
      then have "0 < length (slice text start ?e)" "int (length (slice text start ?e)) \<le> maxLength + 1"
        using adv less.prems chunkEnd_overshoot [of "text" maxLength start] by linarith+
      then show ?thesis
        using cs splitLoop_step [OF inside False, of chunks]
        by (intro exI [of _ "slice text start ?e # cs"]) simp
    qed
  qed
qed

text \<open>The overshoot is never more than one code unit, and no chunk is empty.\<close>

lemma splitTextSafe_chunk_lengths:
  "1 \<le> maxLength \<Longrightarrow>
   \<exists>chunks. splitTextSafe text maxLength = Some chunks
     \<and> (\<forall>c\<in>set chunks. c \<noteq> [] \<and> int (length c) \<le> maxLength + 1)"
  using splitLoop_chunk_lengths [of maxLength 0 "text" "[]"] by (simp add: splitTextSafe_def)






lemma includesJS_iff: "includesJS s p \<longleftrightarrow> (\<exists>k\<le>length s. occursAt s p k)"
  unfolding includesJS_def list_ex_iff set_upt by (auto simp: less_Suc_eq_le)

lemma includesJS_middle: "includesJS (a @ p @ b) p"
proof -
  have "occursAt (a @ p @ b) p (length a)" by (simp add: occursAt_def)
  then show ?thesis unfolding includesJS_iff by (intro exI [of _ "length a"]) simp
qed


lemma includesJS_append_iff: "includesJS s p \<longleftrightarrow> (\<exists>u v. s = u @ p @ v)"
proof
  assume "includesJS s p"
  then obtain k where "occursAt s p k" by (auto simp: includesJS_iff)
  then have "take (length p) (drop k s) = p" by (simp add: occursAt_def)
  then have "s = take k s @ p @ drop (length p) (drop k s)"
    by (metis append_take_drop_id)
  then show "\<exists>u v. s = u @ p @ v" by blast
next
  assume "\<exists>u v. s = u @ p @ v"
  then show "includesJS s p" using includesJS_middle by blast
qed









text \<open>A run without a marker that is longer than the budget is cut by hard splits, while
  bound (a) admits it whole: without the condition on runs the count is not the least.\<close>

lemma splitTextSafe_long_run_example:
  "splitTextSafe (js ''abcdefgh'') 3 = Some [js ''abc'', js ''def'', js ''gh'']
   \<and> withinBound 3 (js ''abcdefgh'') \<and> \<not> noLongRun 3 (js ''abcdefgh'')
   \<and> length [js ''abcdefgh''] < length [js ''abc'', js ''def'', js ''gh'']"
  by code_simp


section \<open>Properties of translation\<close>

lemma map_asciiLower_eq:
  "\<forall>y\<in>set needle. asciiLower y = y \<Longrightarrow>
   map asciiLower xs = needle \<longleftrightarrow> length xs = length needle \<and> list_all2 sameLetter xs needle"
proof (induction xs arbitrary: needle)
  case Nil
  then show ?case by auto
next
  case (Cons x xs)
  then show ?case by (cases needle) (auto simp: sameLetter_def)
qed

lemma hindi_lower: "\<forall>y\<in>set (js ''hindi''). asciiLower y = y"
  by code_simp

lemma hindi_lower_ascii: "\<forall>y\<in>set (js ''hindi''). asciiLower y = y \<and> y < 0x80"
  by code_simp

lemma asciiLower_ascii:
  assumes "asciiLower c < 0x80"
  shows "c < 0x80"
proof (cases "0x41 \<le> c \<and> c \<le> 0x5A")
  case True
  then have "c \<le> 0x5A" by simp
  moreover have "(0x5A :: cu) < 0x80" by simp
  ultimately show ?thesis by (rule le_less_trans)
next
  case False
  then have "asciiLower c = c" by (auto simp: asciiLower_def)
  then show ?thesis using assms by simp
qed

lemma map_nth_window:
  "k + m \<le> length s \<Longrightarrow> map ((!) s) [k..<k + m] = take m (drop k s)"
  by (rule nth_equalityI) simp_all

lemma toLowerCase_keeps_match:
  assumes needle: "\<forall>y\<in>set needle. asciiLower y = y \<and> y < 0x80"
    and found: "containsIgnoringCase s needle"
  shows "includesJS (toLowerCase lowerNonAscii s) needle"
proof -
  let ?m = "length needle"
  let ?f = "\<lambda>i. if s ! i < 0x80 then [asciiLower (s ! i)] else lowerNonAscii s i"
  obtain k where k: "length (take ?m (drop k s)) = ?m"
    "list_all2 sameLetter (take ?m (drop k s)) needle"
    using found by (auto simp: containsIgnoringCase_def list_ex_iff)
  let ?xs = "take ?m (drop k s)"
  have "?m \<le> length s - k" using k(1) by simp
  then have inside: "k + ?m \<le> length s \<or> ?m = 0" by arith
  show ?thesis
  proof (cases "?m = 0")
    case True
    then show ?thesis using includesJS_middle [of "[]" "[]" "toLowerCase lowerNonAscii s"] by simp
  next
    case False
    then have bound: "k + ?m \<le> length s" using inside by simp
    have lower: "map asciiLower ?xs = needle"
      using map_asciiLower_eq [of needle ?xs] needle k by simp
    have ascii: "x < 0x80" if "x \<in> set ?xs" for x
    proof -
      have "asciiLower x \<in> set needle" using that lower by (metis imageI set_map)
      then show ?thesis using needle asciiLower_ascii by blast
    qed
    have nth: "s ! i \<in> set ?xs" if "k \<le> i" "i < k + ?m" for i
    proof -
      have "?xs ! (i - k) = s ! i" using that bound by simp
      moreover have "i - k < length ?xs" using that k(1) by simp
      ultimately show ?thesis by (metis nth_mem)
    qed
    have "map ?f [k..<k + ?m] = map (\<lambda>i. [asciiLower (s ! i)]) [k..<k + ?m]"
      using ascii nth by (intro map_cong) auto
    then have "concat (map ?f [k..<k + ?m]) = concat (map (\<lambda>i. [asciiLower (s ! i)]) [k..<k + ?m])"
      by (rule arg_cong)
    also have "\<dots> = map (\<lambda>i. asciiLower (s ! i)) [k..<k + ?m]"
      by (rule concat_map_singleton)
    also have "\<dots> = map asciiLower (map ((!) s) [k..<k + ?m])"
      by (simp add: comp_def)
    also have "\<dots> = needle" using lower map_nth_window [OF bound] by simp
    finally have mid: "concat (map ?f [k..<k + ?m]) = needle" .
    define r where "r = length s - (k + ?m)"
    have len: "length s = k + ?m + r" using bound by (simp add: r_def)
    have "[0..<k + ?m + r] = [0..<k + ?m] @ [k + ?m..<k + ?m + r]"
      by (rule upt_add_eq_append) simp
    moreover have "[0..<k + ?m] = [0..<k] @ [k..<k + ?m]"
      by (rule upt_add_eq_append) simp
    ultimately have "[0..<length s] = [0..<k] @ [k..<k + ?m] @ [k + ?m..<length s]"
      using len by simp
    then have "concat (map ?f [0..<length s])
        = concat (map ?f [0..<k]) @ concat (map ?f [k..<k + ?m])
          @ concat (map ?f [k + ?m..<length s])"
      by (simp only: map_append concat_append)
    then have "toLowerCase lowerNonAscii s
        = concat (map ?f [0..<k]) @ needle @ concat (map ?f [k + ?m..<length s])"
      unfolding toLowerCase_def mid .
    then show ?thesis by (simp only: includesJS_middle)
  qed
qed

lemma prefix_in_blocks:
  assumes "\<forall>b\<in>set bs. b \<noteq> [] \<and> (set b \<inter> letters \<noteq> {} \<longrightarrow> length b = 1)"
    and "set needle \<subseteq> letters" and "concat bs = needle @ v"
  shows "length needle \<le> length bs \<and> (\<forall>j<length needle. bs ! j = [needle ! j])"
  using assms
proof (induction needle arbitrary: bs)
  case Nil
  then show ?case by simp
next
  case (Cons x xs)
  from Cons.prems(3) obtain b bs' where bs: "bs = b # bs'"
    by (cases bs) auto
  have b: "b \<noteq> []" "set b \<inter> letters \<noteq> {} \<longrightarrow> length b = 1"
    using Cons.prems(1) bs by auto
  then obtain y ys where y: "b = y # ys" by (cases b) auto
  then have "y = x" using Cons.prems(3) bs by simp
  then have "set b \<inter> letters \<noteq> {}" using y Cons.prems(2) by auto
  then have single: "b = [x]" using b(2) y \<open>y = x\<close> by simp
  then have rest: "concat bs' = xs @ v" using Cons.prems(3) bs by simp
  have IH: "length xs \<le> length bs' \<and> (\<forall>j<length xs. bs' ! j = [xs ! j])"
    using Cons.IH [of bs'] Cons.prems(1,2) bs rest by simp
  show ?case
  proof (intro conjI allI impI)
    show "length (x # xs) \<le> length bs" using IH bs by simp
  next
    fix j assume "j < length (x # xs)"
    then show "bs ! j = [(x # xs) ! j]" using IH bs single by (cases j) auto
  qed
qed

lemma match_in_blocks:
  assumes "\<forall>b\<in>set bs. b \<noteq> [] \<and> (set b \<inter> letters \<noteq> {} \<longrightarrow> length b = 1)"
    and "set needle \<subseteq> letters" and "needle \<noteq> []" and "concat bs = u @ needle @ v"
  shows "\<exists>k. k + length needle \<le> length bs \<and> (\<forall>j<length needle. bs ! (k + j) = [needle ! j])"
  using assms(1,4)
proof (induction bs arbitrary: u)
  case Nil
  then show ?case using assms(3) by simp
next
  case (Cons b bs)
  show ?case
  proof (cases "u = []")
    case True
    then have "concat (b # bs) = needle @ v" using Cons.prems(2) by simp
    then have "length needle \<le> length (b # bs) \<and> (\<forall>j<length needle. (b # bs) ! j = [needle ! j])"
      using prefix_in_blocks [OF Cons.prems(1) assms(2)] by blast
    then show ?thesis by (intro exI [of _ 0]) simp
  next
    case False
    have eq: "b @ concat bs = u @ needle @ v" using Cons.prems(2) by simp
    show ?thesis
    proof (cases "length b \<le> length u")
      case True
      have "b = take (length b) u"
        using eq True by (simp add: append_eq_append_conv_if)
      then have "u = b @ drop (length b) u"
        by (metis append_take_drop_id)
      then obtain u' where "u = b @ u'" ..
      then have "concat bs = u' @ needle @ v" using eq by simp
      then obtain k where "k + length needle \<le> length bs"
        "\<forall>j<length needle. bs ! (k + j) = [needle ! j]"
        using Cons.IH [of u'] Cons.prems(1) by auto
      then show ?thesis by (intro exI [of _ "Suc k"]) simp
    next
      case long: False
      from eq obtain us where
        "b = u @ us \<and> us @ concat bs = needle @ v \<or> b @ us = u \<and> concat bs = us @ needle @ v"
        unfolding append_eq_append_conv2 by blast
      then have "b = u @ us \<and> us @ concat bs = needle @ v"
        using long by auto
      moreover from this have "us \<noteq> []" using long by auto
      ultimately obtain w where w: "b = u @ w" "w \<noteq> []" "w @ concat bs = needle @ v"
        by blast
      then have "hd w = hd needle" using assms(3) by (cases w; cases needle) auto
      then have "hd w \<in> set b \<inter> letters" using w(1,2) assms(2,3) by (cases needle) auto
      then have "length b = 1" using Cons.prems(1) by auto
      then show ?thesis using long False by (cases u) auto
    qed
  qed
qed


lemma toLowerCase_match_origin:
  assumes tbl: "\<forall>i<length s. \<not> s ! i < 0x80 \<longrightarrow>
                   lowerNonAscii s i \<noteq> [] \<and> set (lowerNonAscii s i) \<inter> set needle = {}"
    and fixed: "\<forall>y\<in>set needle. asciiLower y = y" and "needle \<noteq> []"
    and inc: "includesJS (toLowerCase lowerNonAscii s) needle"
  shows "containsIgnoringCase s needle"
proof -
  let ?m = "length needle"
  let ?f = "\<lambda>i. if s ! i < 0x80 then [asciiLower (s ! i)] else lowerNonAscii s i"
  let ?bs = "map ?f [0..<length s]"
  have blocks: "\<forall>b\<in>set ?bs. b \<noteq> [] \<and> (set b \<inter> set needle \<noteq> {} \<longrightarrow> length b = 1)"
    using tbl by auto
  obtain u v where "concat ?bs = u @ needle @ v"
    using inc by (auto simp: includesJS_append_iff toLowerCase_def)
  then obtain k where k: "k + ?m \<le> length ?bs" "\<forall>j<?m. ?bs ! (k + j) = [needle ! j]"
    using match_in_blocks [OF blocks _ assms(3), of u v] by blast
  then have bound: "k + ?m \<le> length s" by simp
  have letter: "asciiLower (s ! (k + j)) = needle ! j" if j: "j < ?m" for j
  proof -
    have i: "k + j < length s" using j bound by simp
    have "?bs ! (k + j) = [needle ! j]" using k(2) j by blast
    moreover have "?bs ! (k + j) = ?f (k + j)" using i by (simp del: upt_Suc)
    ultimately have f: "?f (k + j) = [needle ! j]" by simp
    show ?thesis
    proof (cases "s ! (k + j) < 0x80")
      case True
      then show ?thesis using f by simp
    next
      case False
      then have "lowerNonAscii s (k + j) = [needle ! j]" using f by simp
      moreover have "set (lowerNonAscii s (k + j)) \<inter> set needle = {}"
        using tbl i False by blast
      ultimately show ?thesis using j by auto
    qed
  qed
  have "list_all2 sameLetter (take ?m (drop k s)) needle"
  proof (rule list_all2_all_nthI)
    show "length (take ?m (drop k s)) = ?m" using bound by simp
  next
    fix j assume "j < length (take ?m (drop k s))"
    then have j: "j < ?m" by simp
    then have "take ?m (drop k s) ! j = s ! (k + j)" using bound by simp
    moreover have "asciiLower (needle ! j) = needle ! j" using fixed j by simp
    ultimately show "sameLetter (take ?m (drop k s) ! j) (needle ! j)"
      using letter [OF j] by (simp add: sameLetter_def)
  qed
  moreover have "length (take ?m (drop k s)) = ?m" using bound by simp
  moreover have "k \<le> length s" using bound by simp
  then have "k \<in> set [0..<Suc (length s)]" by (simp del: upt_Suc)
  ultimately show ?thesis unfolding containsIgnoringCase_def list_ex_iff by blast
qed

lemma textOrEmpty_Some: "textOrEmpty (Some t) = t"
  by (simp add: textOrEmpty_def)

lemma hindiInstruction_text:
  "length hindiInstruction = 414
   \<and> take 66 hindiInstruction
       = js '' '' @ newline @ js ''IMPORTANT INSTRUCTION: Use conversational, local speakable Hindi''"
  by code_simp

text \<open>
  Claim C8, as the code has it. \<open>translateText\<close> sends the collaborator one request, whose
  text is the plain prompt, then the informal-register instruction exactly when the
  lower-cased target language name includes "hindi", then the text to translate, and its
  result is what the collaborator answers to that request. The instruction is the 414 code
  units of the source. Every name that contains "hindi" as a substring up to the case of the
  letters gets the instruction; and when the lower-casing of no code unit of the name
  outside ASCII is empty or has a letter of "hindi" in it, the name gets the instruction if
  and only if it contains "hindi" up to the case of the letters.
\<close>

theorem translateText_hindi_instruction:
  "translateText lowerNonAscii generateContent text targetLanguage
     = (case generateContent
               \<lparr>model = ''gemini-2.5-flash'',
                partText = plainPrompt targetLanguage
                  @ (if includesJS (toLowerCase lowerNonAscii targetLanguage) (js ''hindi'')
                     then hindiInstruction else [])
                  @ newline @ newline @ js ''Text to translate:'' @ newline
                  @ doubleQuote @ text @ doubleQuote\<rparr> of
          Rejects thrown \<Rightarrow> Inl (Error ''Failed to translate text.'')
        | Resolves responseText \<Rightarrow> Inr (textOrEmpty responseText))
   \<and> length hindiInstruction = 414
   \<and> take 66 hindiInstruction
       = js '' '' @ newline @ js ''IMPORTANT INSTRUCTION: Use conversational, local speakable Hindi''
   \<and> (containsIgnoringCase targetLanguage (js ''hindi'') \<longrightarrow>
        includesJS (toLowerCase lowerNonAscii targetLanguage) (js ''hindi''))
   \<and> ((\<forall>i<length targetLanguage. \<not> targetLanguage ! i < 0x80 \<longrightarrow>
           lowerNonAscii targetLanguage i \<noteq> []
           \<and> set (lowerNonAscii targetLanguage i) \<inter> set (js ''hindi'') = {}) \<longrightarrow>
        (includesJS (toLowerCase lowerNonAscii targetLanguage) (js ''hindi'')
         \<longleftrightarrow> containsIgnoringCase targetLanguage (js ''hindi'')))"
proof -
  have sent: "translateText lowerNonAscii generateContent text targetLanguage
     = (case generateContent
               \<lparr>model = ''gemini-2.5-flash'',
                partText = plainPrompt targetLanguage
                  @ (if includesJS (toLowerCase lowerNonAscii targetLanguage) (js ''hindi'')
                     then hindiInstruction else [])
                  @ newline @ newline @ js ''Text to translate:'' @ newline
                  @ doubleQuote @ text @ doubleQuote\<rparr> of
          Rejects thrown \<Rightarrow> Inl (Error ''Failed to translate text.'')
        | Resolves responseText \<Rightarrow> Inr (textOrEmpty responseText))"
    by (simp add: translateText_def translateRequest_def translatePrompt_def)
  have forward: "includesJS (toLowerCase lowerNonAscii targetLanguage) (js ''hindi'')"
    if "containsIgnoringCase targetLanguage (js ''hindi'')"
    using toLowerCase_keeps_match [OF hindi_lower_ascii that] .
  have nonempty: "js ''hindi'' \<noteq> []" by (simp add: js_def)
  have backward: "containsIgnoringCase targetLanguage (js ''hindi'')"
    if "\<forall>i<length targetLanguage. \<not> targetLanguage ! i < 0x80 \<longrightarrow>
           lowerNonAscii targetLanguage i \<noteq> []
           \<and> set (lowerNonAscii targetLanguage i) \<inter> set (js ''hindi'') = {}"
      and "includesJS (toLowerCase lowerNonAscii targetLanguage) (js ''hindi'')"
    using toLowerCase_match_origin [OF that(1) hindi_lower nonempty that(2)] .
  show ?thesis
    using sent hindiInstruction_text forward backward by blast
qed

theorem translateText_hindi_instruction_witness:
  "containsIgnoringCase (js ''HINDI (India)'') (js ''hindi'')
   \<and> translateText lowerDottedI (\<lambda>r. Resolves (Some (partText r))) (js ''Hi'')
        (js ''HINDI (India)'')
       = Inr (plainPrompt (js ''HINDI (India)'') @ hindiInstruction
              @ newline @ newline @ js ''Text to translate:'' @ newline
              @ doubleQuote @ js ''Hi'' @ doubleQuote)
   \<and> list_all (\<lambda>i. \<not> (js ''Fran'' @ [0xE7] @ js ''ais'') ! i < 0x80 \<longrightarrow>
          lowerDottedI (js ''Fran'' @ [0xE7] @ js ''ais'') i \<noteq> []
          \<and> set (lowerDottedI (js ''Fran'' @ [0xE7] @ js ''ais'') i) \<inter> set (js ''hindi'') = {})
        [0..<length (js ''Fran'' @ [0xE7] @ js ''ais'')]
   \<and> \<not> containsIgnoringCase (js ''Fran'' @ [0xE7] @ js ''ais'') (js ''hindi'')
   \<and> translateText lowerDottedI (\<lambda>r. Resolves (Some (partText r))) (js ''Hi'')
        (js ''Fran'' @ [0xE7] @ js ''ais'')
       = Inr (plainPrompt (js ''Fran'' @ [0xE7] @ js ''ais'')
              @ newline @ newline @ js ''Text to translate:'' @ newline
              @ doubleQuote @ js ''Hi'' @ doubleQuote)"
proof -
  let ?hi = "js ''HINDI (India)''" and ?fr = "js ''Fran'' @ [0xE7] @ js ''ais''"
  let ?echo = "\<lambda>r. (Resolves (Some (partText r)) :: jsstring option awaited)"
  have c1: "containsIgnoringCase ?hi (js ''hindi'')"
    and c2: "\<not> containsIgnoringCase ?fr (js ''hindi'')"
    by code_simp+
  have tbl: "list_all (\<lambda>i. \<not> ?fr ! i < 0x80 \<longrightarrow>
          lowerDottedI ?fr i \<noteq> [] \<and> set (lowerDottedI ?fr i) \<inter> set (js ''hindi'') = {})
        [0..<length ?fr]"
    by code_simp
  then have tbl': "\<forall>i<length ?fr. \<not> ?fr ! i < 0x80 \<longrightarrow>
          lowerDottedI ?fr i \<noteq> [] \<and> set (lowerDottedI ?fr i) \<inter> set (js ''hindi'') = {}"
    unfolding list_all_iff by (metis atLeastLessThan_iff set_upt zero_le)
  have "includesJS (toLowerCase lowerDottedI ?hi) (js ''hindi'')"
    using translateText_hindi_instruction [of lowerDottedI ?echo "js ''Hi''" ?hi] c1 by blast
  then have a: "translateText lowerDottedI ?echo (js ''Hi'') ?hi
       = Inr (plainPrompt ?hi @ hindiInstruction
              @ newline @ newline @ js ''Text to translate:'' @ newline
              @ doubleQuote @ js ''Hi'' @ doubleQuote)"
    using translateText_hindi_instruction [of lowerDottedI ?echo "js ''Hi''" ?hi]
    by (simp add: textOrEmpty_Some)
  have "\<not> includesJS (toLowerCase lowerDottedI ?fr) (js ''hindi'')"
    using translateText_hindi_instruction [of lowerDottedI ?echo "js ''Hi''" ?fr] c2 tbl' by blast
  then have b: "translateText lowerDottedI ?echo (js ''Hi'') ?fr
       = Inr (plainPrompt ?fr
              @ newline @ newline @ js ''Text to translate:'' @ newline
              @ doubleQuote @ js ''Hi'' @ doubleQuote)"
    using translateText_hindi_instruction [of lowerDottedI ?echo "js ''Hi''" ?fr]
    by (simp add: textOrEmpty_Some)
  show ?thesis using c1 c2 tbl a b by blast
qed

text \<open>
  Claim C8 as it is written fails for a name outside ASCII: the last code unit of
  HIND followed by U+0130 is not an \<open>i\<close> in either case, so the name does not contain "hindi"
  up to case, but \<open>toLowerCase\<close> turns U+0130 into an \<open>i\<close> and a combining dot, the
  lower-cased name includes "hindi", and the instruction is sent.
\<close>

theorem translateText_hindi_instruction_counterexample:
  "\<not> containsIgnoringCase (js ''HIND'' @ [0x130]) (js ''hindi'')
   \<and> toLowerCase lowerDottedI (js ''HIND'' @ [0x130]) = js ''hindi'' @ [0x307]
   \<and> translateText lowerDottedI (\<lambda>r. Resolves (Some (partText r))) (js ''Hi'')
        (js ''HIND'' @ [0x130])
       = Inr (plainPrompt (js ''HIND'' @ [0x130]) @ hindiInstruction
              @ newline @ newline @ js ''Text to translate:'' @ newline
              @ doubleQuote @ js ''Hi'' @ doubleQuote)"
  by code_simp


text \<open>
  Claim C10. When the collaborator resolves with an absent or empty text, \<open>translateText\<close>
  returns the empty string as a result; it fails exactly when the collaborator call
  rejects, and then with the one fixed translation error.
\<close>

theorem translateText_empty_response:
  "(generateContent (translateRequest lowerNonAscii text targetLanguage) = Resolves None
    \<or> generateContent (translateRequest lowerNonAscii text targetLanguage) = Resolves (Some [])
    \<longrightarrow> translateText lowerNonAscii generateContent text targetLanguage = Inr [])
   \<and> ((\<exists>e. translateText lowerNonAscii generateContent text targetLanguage = Inl e)
        \<longleftrightarrow> (\<exists>thrown. generateContent (translateRequest lowerNonAscii text targetLanguage)
                        = Rejects thrown))
   \<and> (\<forall>e. translateText lowerNonAscii generateContent text targetLanguage = Inl e
          \<longrightarrow> e = Error ''Failed to translate text.'')"
  by (cases "generateContent (translateRequest lowerNonAscii text targetLanguage)")
     (auto simp: translateText_def textOrEmpty_def)

theorem translateText_empty_response_witness:
  "translateText (\<lambda>s i. []) (\<lambda>r. Resolves None) (js ''Hello'') (js ''French'') = Inr []
   \<and> translateText (\<lambda>s i. []) (\<lambda>r. Resolves (Some [])) (js ''Hello'') (js ''French'') = Inr []
   \<and> translateText (\<lambda>s i. []) (\<lambda>r. Rejects (Error ''offline'')) (js ''Hello'') (js ''French'')
       = Inl (Error ''Failed to translate text.'')"
  using translateText_empty_response [of "\<lambda>r. Resolves None" "\<lambda>s i. []" "js ''Hello''" "js ''French''"]
    translateText_empty_response [of "\<lambda>r. Resolves (Some [])" "\<lambda>s i. []" "js ''Hello''" "js ''French''"]
    translateText_empty_response [of "\<lambda>r. Rejects (Error ''offline'')" "\<lambda>s i. []" "js ''Hello''" "js ''French''"]
  by auto

section \<open>Properties of speech synthesis\<close>

lemma speechLoop_collects:
  "\<forall>ic\<in>set ics. \<not> rejectsAt g v ic \<Longrightarrow>
   \<forall>b\<in>set (List.map_filter (payloadOf g v) ics). decodes c b \<Longrightarrow>
   \<exists>st'. speechLoop c g v ics st = (None, st')
        \<and> audioParts st' = audioParts st @ map (decoded c) (List.map_filter (payloadOf g v) ics)"
proof (induction ics arbitrary: st)
  case Nil
  then show ?case by (simp add: map_filter_simps)
next
  case (Cons ic ics)
  obtain index chunk where ic: "ic = (index, chunk)" by (cases ic)
  have rest: "\<forall>ic\<in>set ics. \<not> rejectsAt g v ic"
    "\<forall>b\<in>set (List.map_filter (payloadOf g v) ics). decodes c b"
    using Cons.prems by (auto simp: map_filter_simps split: option.splits)
  note IH = Cons.IH [OF rest]
  show ?case
  proof (cases "payloadOf g v ic")
    case None
    have "\<not> rejectsAt g v (index, chunk)" using Cons.prems(1) ic by simp
    with None ic have "\<exists>st2. speechLoop c g v (ic # ics) st = speechLoop c g v ics st2
             \<and> audioParts st2 = audioParts st"
      by (auto simp: payloadOf_def rejectsAt_def split: if_splits awaited.splits option.splits)
    then obtain st2 where st2: "speechLoop c g v (ic # ics) st = speechLoop c g v ics st2"
      "audioParts st2 = audioParts st" by blast
    show ?thesis using IH [of st2] st2 None by (simp add: map_filter_simps)
  next
    case (Some b)
    then have "decodes c b" using Cons.prems(2) by (simp add: map_filter_simps)
    then obtain bytes where bytes: "base64ToBytes c b = Inr bytes"
      by (auto simp: decodes_def split: sum.splits)
    from Some have req: "trim chunk \<noteq> []" "g index (speechRequest chunk v) = Resolves (Some b)" "b \<noteq> []"
      using ic by (auto simp: payloadOf_def split: if_splits awaited.splits option.splits)
    show ?thesis
      using IH [of "st\<lparr>audioParts := audioParts st @ [bytes], requested := requested st @ [index]\<rparr>"]
        Some req bytes ic
      by (simp add: map_filter_simps decoded_def)
  qed
qed

lemma speechBody_collects:
  assumes "\<forall>ic\<in>set (enumerate 0 chunks). \<not> rejectsAt g v ic"
    and "\<forall>b\<in>set (presentPayloads g v chunks). decodes c b"
  shows "fst (speechBody c g v chunks)
         = (if presentPayloads g v chunks = [] then Inl (Error ''No audio generated from text.'')
            else Inr (bytesToBase64 c (concat (map (decoded c) (presentPayloads g v chunks)))))"
proof -
  obtain st' where st': "speechLoop c g v (enumerate 0 chunks)
       \<lparr>audioParts = [], requested = [], warned = []\<rparr> = (None, st')"
    "audioParts st' = map (decoded c) (presentPayloads g v chunks)"
    using speechLoop_collects [OF assms(1), of c "\<lparr>audioParts = [], requested = [], warned = []\<rparr>"] assms(2)
    by (auto simp: presentPayloads_def)
  then show ?thesis by (simp add: speechBody_def concatenateBytes_def)
qed

lemma splitTextSafe_TTS_returns: "\<exists>chunks. splitTextSafe text TTS_CHUNK_SIZE = Some chunks"
  using splitLoop_total [of TTS_CHUNK_SIZE 0 "text" "[]"]
  by (auto simp: splitTextSafe_def TTS_CHUNK_SIZE_def)

text \<open>
  Claim C3. The chunker returns on every text. If no request rejects and every payload
  that comes back is base64 that \<open>base64ToBytes\<close> decodes, as the speech collaborator
  promises, then \<open>generateSpeech\<close> fails with the one fixed
  synthesis error when no chunk yields a payload, and otherwise succeeds and returns the
  base64 encoding of the concatenation of the decoded bytes of exactly the chunks that
  yielded a payload, in chunk order.
\<close>

theorem generateSpeech_merges_present_audio:
  "\<exists>chunks. splitTextSafe text TTS_CHUNK_SIZE = Some chunks
     \<and> ((\<forall>ic\<in>set (enumerate 0 chunks). \<not> rejectsAt g (voiceOrDefault voiceName) ic)
          \<and> (\<forall>b\<in>set (presentPayloads g (voiceOrDefault voiceName) chunks). decodes c b)
        \<longrightarrow> map_option fst (generateSpeech c g text voiceName)
            = Some (if presentPayloads g (voiceOrDefault voiceName) chunks = []
                    then Inl (Error ''Failed to generate speech audio.'')
                    else Inr (bytesToBase64 c
                           (concat (map (decoded c)
                              (presentPayloads g (voiceOrDefault voiceName) chunks))))))"
proof -
  obtain chunks where chunks: "splitTextSafe text TTS_CHUNK_SIZE = Some chunks"
    using splitTextSafe_TTS_returns by blast
  have "map_option fst (generateSpeech c g text voiceName)
            = Some (if presentPayloads g (voiceOrDefault voiceName) chunks = []
                    then Inl (Error ''Failed to generate speech audio.'')
                    else Inr (bytesToBase64 c
                           (concat (map (decoded c)
                              (presentPayloads g (voiceOrDefault voiceName) chunks)))))"
    if "\<forall>ic\<in>set (enumerate 0 chunks). \<not> rejectsAt g (voiceOrDefault voiceName) ic"
      and "\<forall>b\<in>set (presentPayloads g (voiceOrDefault voiceName) chunks). decodes c b"
    using speechBody_collects [OF that] chunks
    by (cases "speechBody c g (voiceOrDefault voiceName) chunks")
       (auto simp: generateSpeech_def split: sum.splits if_splits)
  then show ?thesis using chunks by blast
qed


theorem generateSpeech_merges_present_audio_witness:
  "splitTextSafe (js ''Hi'') TTS_CHUNK_SIZE = Some [js ''Hi'']
   \<and> \<not> rejectsAt (\<lambda>i r. Resolves (Some (js ''AAEC''))) (voiceOrDefault None) (0, js ''Hi'')
   \<and> presentPayloads (\<lambda>i r. Resolves (Some (js ''AAEC''))) (voiceOrDefault None) [js ''Hi'']
       = [js ''AAEC'']
   \<and> decodes specCodec (js ''AAEC'')
   \<and> map_option fst
        (generateSpeech specCodec (\<lambda>i r. Resolves (Some (js ''AAEC''))) (js ''Hi'') None)
       = Some (Inr (js ''AAEC''))"
proof -
  let ?g = "\<lambda>(i::nat) (r::speech_request). Resolves (Some (js ''AAEC''))"
  have split: "splitTextSafe (js ''Hi'') TTS_CHUNK_SIZE = Some [js ''Hi'']"
    by code_simp
  have h1: "\<forall>ic\<in>set (enumerate 0 [js ''Hi'']). \<not> rejectsAt ?g (voiceOrDefault None) ic"
    by code_simp
  have h2: "\<forall>b\<in>set (presentPayloads ?g (voiceOrDefault None) [js ''Hi'']). decodes specCodec b"
    by code_simp
  have p: "presentPayloads ?g (voiceOrDefault None) [js ''Hi''] = [js ''AAEC'']"
    by code_simp
  have d: "bytesToBase64 specCodec (concat (map (decoded specCodec) [js ''AAEC''])) = js ''AAEC''"
    by code_simp
  from generateSpeech_merges_present_audio [of "js ''Hi''" ?g None specCodec] split h1 h2
  have "map_option fst (generateSpeech specCodec ?g (js ''Hi'') None)
       = Some (if presentPayloads ?g (voiceOrDefault None) [js ''Hi''] = []
               then Inl (Error ''Failed to generate speech audio.'')
               else Inr (bytesToBase64 specCodec
                      (concat (map (decoded specCodec)
                         (presentPayloads ?g (voiceOrDefault None) [js ''Hi''])))))"
    by auto
  then have "map_option fst (generateSpeech specCodec ?g (js ''Hi'') None) = Some (Inr (js ''AAEC''))"
    unfolding p d by simp
  moreover have "\<not> rejectsAt ?g (voiceOrDefault None) (0, js ''Hi'')"
    and "decodes specCodec (js ''AAEC'')"
    by code_simp+
  ultimately show ?thesis using split p by blast
qed

lemma speechLoop_step_cases:
  "(\<exists>e. speechLoop c g v ((index, chunk) # ics) st
          = (Some e, st\<lparr>requested := requested st @ [index]\<rparr>))
   \<or> (speechLoop c g v ((index, chunk) # ics) st = speechLoop c g v ics st
       \<and> \<not> rejectsAt g v (index, chunk))
   \<or> (\<exists>st2. speechLoop c g v ((index, chunk) # ics) st = speechLoop c g v ics st2
          \<and> requested st2 = requested st @ [index] \<and> \<not> rejectsAt g v (index, chunk))"
proof (cases "trim chunk = []")
  case True
  then show ?thesis by (simp add: rejectsAt_def)
next
  case nonblank: False
  show ?thesis
  proof (cases "g index (speechRequest chunk v)")
    case (Rejects e)
    then show ?thesis using nonblank by simp
  next
    case (Resolves base64Audio)
    then have ok: "\<not> rejectsAt g v (index, chunk)" by (simp add: rejectsAt_def)
    let ?warn = "st\<lparr>requested := requested st @ [index], warned := warned st @ [index]\<rparr>"
    show ?thesis
    proof (cases base64Audio)
      case None
      then have "speechLoop c g v ((index, chunk) # ics) st = speechLoop c g v ics ?warn"
        using nonblank Resolves by simp
      then show ?thesis using ok by (intro disjI2 exI [of _ ?warn]) simp
    next
      case (Some payload)
      show ?thesis
      proof (cases "payload = []")
        case True
        then have "speechLoop c g v ((index, chunk) # ics) st = speechLoop c g v ics ?warn"
          using nonblank Resolves Some by simp
        then show ?thesis using ok by (intro disjI2 exI [of _ ?warn]) simp
      next
        case False
        show ?thesis
        proof (cases "base64ToBytes c payload")
          case (Inl e)
          then show ?thesis using nonblank Resolves Some False by simp
        next
          case (Inr bytes)
          let ?push = "st\<lparr>audioParts := audioParts st @ [bytes], requested := requested st @ [index]\<rparr>"
          have "speechLoop c g v ((index, chunk) # ics) st = speechLoop c g v ics ?push"
            using nonblank Resolves Some False Inr by simp
          then show ?thesis using ok by (intro disjI2 exI [of _ ?push]) simp
        qed
      qed
    qed
  qed
qed

lemma speechLoop_trace:
  "distinct (map fst ics) \<Longrightarrow>
   \<exists>r st' js. speechLoop c g v ics st = (r, st')
      \<and> requested st' = requested st @ js
      \<and> set js \<subseteq> fst ` set ics \<and> distinct js
      \<and> (\<forall>ic\<in>set ics. fst ic \<in> set js \<and> rejectsAt g v ic \<longrightarrow> fst ic = last js)
      \<and> ((\<exists>ic\<in>set ics. rejectsAt g v ic) \<longrightarrow> r \<noteq> None)"
proof (induction ics arbitrary: st)
  case Nil
  then show ?case by simp
next
  case (Cons ic ics)
  obtain index chunk where ic: "ic = (index, chunk)" by (cases ic)
  have fresh: "index \<notin> fst ` set ics" and dist: "distinct (map fst ics)"
    using Cons.prems ic by auto
  consider (stop) e where "speechLoop c g v (ic # ics) st = (Some e, st\<lparr>requested := requested st @ [index]\<rparr>)"
    | (skip) "speechLoop c g v (ic # ics) st = speechLoop c g v ics st" "\<not> rejectsAt g v ic"
    | (advance) st2 where "speechLoop c g v (ic # ics) st = speechLoop c g v ics st2"
        "requested st2 = requested st @ [index]" "\<not> rejectsAt g v ic"
    using speechLoop_step_cases [of c g v index chunk ics st] ic by blast
  then show ?case
  proof cases
    case stop
    then show ?thesis using ic by (intro exI [of _ "Some e"] exI [of _ "[index]"] exI) auto
  next
    case skip
    obtain r st' js where IH: "speechLoop c g v ics st = (r, st')"
      "requested st' = requested st @ js" "set js \<subseteq> fst ` set ics" "distinct js"
      "\<forall>ic\<in>set ics. fst ic \<in> set js \<and> rejectsAt g v ic \<longrightarrow> fst ic = last js"
      "(\<exists>ic\<in>set ics. rejectsAt g v ic) \<longrightarrow> r \<noteq> None"
      using Cons.IH [OF dist, of st] by blast
    show ?thesis
      using IH skip by (intro exI [of _ r] exI [of _ st'] exI [of _ js]) auto
  next
    case advance
    obtain r st' js where IH: "speechLoop c g v ics st2 = (r, st')"
      "requested st' = requested st2 @ js" "set js \<subseteq> fst ` set ics" "distinct js"
      "\<forall>ic\<in>set ics. fst ic \<in> set js \<and> rejectsAt g v ic \<longrightarrow> fst ic = last js"
      "(\<exists>ic\<in>set ics. rejectsAt g v ic) \<longrightarrow> r \<noteq> None"
      using Cons.IH [OF dist, of st2] by blast
    have notin: "index \<notin> set js" using IH(3) fresh by blast
    have last: "fst x = last (index # js)" if "x \<in> set ics" "fst x \<in> set (index # js)" "rejectsAt g v x" for x
    proof -
      have "fst x \<noteq> index" using that(1) fresh by force
      then have "fst x \<in> set js" using that(2) by simp
      then show ?thesis using IH(5) that by auto
    qed
    show ?thesis
      using IH advance notin last ic
      by (intro exI [of _ r] exI [of _ st'] exI [of _ "index # js"]) auto
  qed
qed


text \<open>
  Claim C4. \<open>generateSpeech\<close> returns on every text, and no chunk is requested twice. If the
  request of some chunk rejects, the result is the one fixed synthesis error, never a merged
  stream, and a request that was issued and rejected is the last request issued: it is not
  repeated and nothing is requested after it.
\<close>

theorem generateSpeech_aborts_on_rejection:
  "\<exists>chunks result st.
      splitTextSafe text TTS_CHUNK_SIZE = Some chunks
    \<and> generateSpeech c g text voiceName = Some (result, st)
    \<and> distinct (requested st)
    \<and> ((\<exists>ic\<in>set (enumerate 0 chunks). rejectsAt g (voiceOrDefault voiceName) ic) \<longrightarrow>
          result = Inl (Error ''Failed to generate speech audio.'')
        \<and> (\<forall>ic\<in>set (enumerate 0 chunks).
              fst ic \<in> set (requested st) \<and> rejectsAt g (voiceOrDefault voiceName) ic
              \<longrightarrow> fst ic = last (requested st)))"
proof -
  let ?v = "voiceOrDefault voiceName"
  let ?init = "\<lparr>audioParts = [], requested = [], warned = []\<rparr>"
  obtain chunks where chunks: "splitTextSafe text TTS_CHUNK_SIZE = Some chunks"
    using splitTextSafe_TTS_returns by blast
  have "distinct (map fst (enumerate 0 chunks))" by simp
  then obtain r st js where run: "speechLoop c g ?v (enumerate 0 chunks) ?init = (r, st)"
    "requested st = requested ?init @ js" "distinct js"
    "\<forall>ic\<in>set (enumerate 0 chunks). fst ic \<in> set js \<and> rejectsAt g ?v ic \<longrightarrow> fst ic = last js"
    "(\<exists>ic\<in>set (enumerate 0 chunks). rejectsAt g ?v ic) \<longrightarrow> r \<noteq> None"
    using speechLoop_trace [of "enumerate 0 chunks" c g ?v ?init] by blast
  have req: "requested st = js" using run(2) by simp
  have "snd (speechBody c g ?v chunks) = st"
    "r \<noteq> None \<longrightarrow> (\<exists>e. fst (speechBody c g ?v chunks) = Inl e)"
    using run(1) by (cases r; simp add: speechBody_def)+
  then obtain res where res: "speechBody c g ?v chunks = (res, st)" "r \<noteq> None \<longrightarrow> (\<exists>e. res = Inl e)"
    by (cases "speechBody c g ?v chunks") auto
  define result where
    "result = (case res of Inl e \<Rightarrow> Inl (Error ''Failed to generate speech audio.'')
               | Inr merged \<Rightarrow> Inr merged)"
  have result: "generateSpeech c g text voiceName = Some (result, st)"
    "r \<noteq> None \<longrightarrow> result = Inl (Error ''Failed to generate speech audio.'')"
    using chunks res by (auto simp: generateSpeech_def result_def split: sum.splits)
  show ?thesis
    using chunks result run(3,4,5) req
    by (intro exI [of _ chunks] exI [of _ result] exI [of _ st]) simp
qed

theorem generateSpeech_aborts_on_rejection_witness:
  "splitTextSafe (js ''Hi'') TTS_CHUNK_SIZE = Some [js ''Hi'']
   \<and> rejectsAt (\<lambda>i r. Rejects (Error ''offline'')) (voiceOrDefault None) (0, js ''Hi'')
   \<and> generateSpeech specCodec (\<lambda>i r. Rejects (Error ''offline'')) (js ''Hi'') None
       = Some (Inl (Error ''Failed to generate speech audio.''),
               \<lparr>audioParts = [], requested = [0], warned = []\<rparr>)"
proof -
  let ?g = "\<lambda>(i::nat) (r::speech_request). (Rejects (Error ''offline'') :: jsstring option awaited)"
  have split: "splitTextSafe (js ''Hi'') TTS_CHUNK_SIZE = Some [js ''Hi'']"
    by code_simp
  have h: "\<exists>ic\<in>set (enumerate 0 [js ''Hi'']). rejectsAt ?g (voiceOrDefault None) ic"
    by code_simp
  have run: "map_option snd (generateSpeech specCodec ?g (js ''Hi'') None)
             = Some \<lparr>audioParts = [], requested = [0], warned = []\<rparr>"
    by code_simp
  from generateSpeech_aborts_on_rejection [of "js ''Hi''" specCodec ?g None] split h
  obtain st where "generateSpeech specCodec ?g (js ''Hi'') None
       = Some (Inl (Error ''Failed to generate speech audio.''), st)"
    by auto
  moreover have "rejectsAt ?g (voiceOrDefault None) (0, js ''Hi'')"
    by code_simp
  ultimately show ?thesis using split run by auto
qed

section \<open>Properties of the waveform\<close>

lemma scanSample_inside:
  "i * step + j < length data \<Longrightarrow>
   scanSample data step i j acc = (min (data ! (i * step + j)) (fst acc), max (data ! (i * step + j)) (snd acc))"
  by (auto simp: scanSample_def readSample_def min_def max_def)

lemma scanSample_outside:
  "\<not> i * step + j < length data \<Longrightarrow> scanSample data step i j acc = acc"
  by (simp add: scanSample_def readSample_def)

lemma fold_scanSample:
  "fold (scanSample data step i) [0..<n] acc
   = fold (\<lambda>datum a. (min datum (fst a), max datum (snd a))) (take n (drop (i * step) data)) acc"
proof (induction n)
  case 0
  then show ?case by simp
next
  case (Suc n)
  show ?case
  proof (cases "i * step + n < length data")
    case True
    then have "take (Suc n) (drop (i * step) data) = take n (drop (i * step) data) @ [data ! (i * step + n)]"
      by (simp add: take_Suc_conv_app_nth)
    then show ?thesis using Suc True by (simp add: scanSample_inside)
  next
    case False
    then have "take (Suc n) (drop (i * step) data) = take n (drop (i * step) data)"
      by simp
    then show ?thesis using Suc False by (simp add: scanSample_outside)
  qed
qed

lemma Min_insert_min: "finite S \<Longrightarrow> Min (insert (min a b) S) = Min (insert b (insert (a::real) S))"
  by (cases "S = {}") (simp_all add: min.assoc min.commute min.left_commute)

lemma Max_insert_max: "finite S \<Longrightarrow> Max (insert (max a b) S) = Max (insert b (insert (a::real) S))"
  by (cases "S = {}") (simp_all add: max.assoc max.commute max.left_commute)

lemma fold_min_max:
  "fold (\<lambda>datum a. (min datum (fst a), max datum (snd a))) xs (mn, mx)
   = (Min (insert mn (set xs)), Max (insert (mx::real) (set xs)))"
  by (induction xs arbitrary: mn mx) (simp_all add: Min_insert_min Max_insert_max)

lemma neg_div_ceiling:
  fixes n w :: int
  assumes "0 < w"
  shows "- (- n div w) = (n + w - 1) div w"
proof (cases "n mod w = 0")
  case True
  have "n + w - 1 = w * (n div w) + (w - 1)"
    using True by (simp add: algebra_simps) (metis True mult_div_mod_eq add.right_neutral mult.commute)
  then have "(n + w - 1) div w = n div w"
    using assms int_div_pos_eq [of "n + w - 1" w "n div w" "w - 1"] by simp
  then show ?thesis using True assms by (simp add: zdiv_zminus1_eq_if)
next
  case False
  have "0 \<le> n mod w" "n mod w < w" using assms by simp_all
  then have r: "0 < n mod w" "n mod w < w" using False by simp_all
  have "n = w * (n div w) + n mod w" by simp
  then have "n + w - 1 = w * (n div w + 1) + (n mod w - 1)"
    by (simp add: algebra_simps)
  then have "(n + w - 1) div w = n div w + 1"
    using assms r int_div_pos_eq [of "n + w - 1" w "n div w + 1" "n mod w - 1"] by simp
  then show ?thesis using False assms by (simp add: zdiv_zminus1_eq_if)
qed

lemma ceil_div_nat:
  assumes "1 \<le> w"
  shows "nat \<lceil>real n / real w\<rceil> = (n + w - 1) div w"
proof -
  have "\<lceil>real n / real w\<rceil> = \<lceil>of_int (int n) / (of_int (int w) :: real)\<rceil>" by simp
  also have "\<dots> = - (- int n div int w)" by (rule ceiling_divide_eq_div)
  also have "\<dots> = (int n + int w - 1) div int w"
    using assms by (intro neg_div_ceiling) simp
  also have "\<dots> = int ((n + w - 1) div w)"
    using assms by (simp add: zdiv_int of_nat_diff)
  finally show ?thesis by simp
qed

lemma stepOf_ceilDiv: "1 \<le> width \<Longrightarrow> stepOf data width = ceilDiv (length data) width"
  by (simp add: stepOf_def ceilDiv_def ceil_div_nat)

lemma column_window:
  "1 \<le> width \<Longrightarrow>
   column data (stepOf data width) i
   = (Min (insert 1 (set (window data width i))), Max (insert (- 1) (set (window data width i))))"
  by (simp add: stepOf_ceilDiv column_def fold_scanSample fold_min_max window_def)

text \<open>
  Claim C6, as the code has it. For every sample array, the empty one included, and every
  column count \<open>N\<close>, \<open>drawWaveform\<close> produces exactly \<open>N\<close> columns; column \<open>i\<close> holds the
  least of 1.0 and the samples of its window and the greatest of -1.0 and the samples of its
  window, the window being the contiguous run of \<open>ceil(sampleCount / N)\<close> samples from
  \<open>i * ceil(sampleCount / N)\<close>. An empty window gives the column (1.0, -1.0) and nothing
  fails; a non-empty window of samples between -1.0 and 1.0 gives its minimum and maximum.
\<close>

theorem drawWaveform_columns:
  "length (drawWaveform data width) = width
   \<and> (\<forall>i<width. drawWaveform data width ! i
         = (Min (insert 1 (set (window data width i))),
            Max (insert (- 1) (set (window data width i)))))
   \<and> (\<forall>i<width. window data width i = [] \<longrightarrow> drawWaveform data width ! i = (1, - 1))
   \<and> (\<forall>i<width. window data width i \<noteq> [] \<and> (\<forall>x\<in>set (window data width i). - 1 \<le> x \<and> x \<le> 1)
         \<longrightarrow> drawWaveform data width ! i
             = (Min (set (window data width i)), Max (set (window data width i))))"
proof -
  have col: "drawWaveform data width ! i
         = (Min (insert 1 (set (window data width i))),
            Max (insert (- 1) (set (window data width i))))" if "i < width" for i
    using that by (simp add: drawWaveform_def column_window)
  have inrange: "Min (insert 1 (set w)) = Min (set w) \<and> Max (insert (- 1) (set w)) = Max (set w)"
    if "w \<noteq> []" "\<forall>x\<in>set w. - 1 \<le> x \<and> x \<le> 1" for w :: "real list"
  proof -
    have "Min (set w) \<le> 1" "- 1 \<le> Max (set w)"
      using that by (auto simp: Min_le_iff Max_ge_iff intro: exI [of _ "hd w"])
    then show ?thesis using that(1) by (simp add: min_absorb2 max_absorb2)
  qed
  show ?thesis using col inrange by (auto simp: drawWaveform_def)
qed

theorem drawWaveform_columns_witness:
  "(0::nat) < 3 \<and> window [0.5, 0.25, - 0.5, 0] 3 0 = [0.5, 0.25]
   \<and> drawWaveform [0.5, 0.25, - 0.5, 0] 3 ! 0 = (0.25, 0.5)
   \<and> (2::nat) < 3 \<and> window [0.5, 0.25, - 0.5, 0] 3 2 = []
   \<and> drawWaveform [0.5, 0.25, - 0.5, 0] 3 ! 2 = (1, - 1)"
proof -
  let ?data = "[0.5, 0.25, - 0.5, 0] :: real list"
  have w0: "window ?data 3 0 = [0.5, 0.25]" and w2: "window ?data 3 2 = []"
    by code_simp+
  have full: "\<forall>i<3. window ?data 3 i \<noteq> [] \<and> (\<forall>x\<in>set (window ?data 3 i). - 1 \<le> x \<and> x \<le> 1)
         \<longrightarrow> drawWaveform ?data 3 ! i
             = (Min (set (window ?data 3 i)), Max (set (window ?data 3 i)))"
    and empty: "\<forall>i<3. window ?data 3 i = [] \<longrightarrow> drawWaveform ?data 3 ! i = (1, - 1)"
    using drawWaveform_columns [of ?data 3] by blast+
  have "drawWaveform ?data 3 ! 0 = (Min (set (window ?data 3 0)), Max (set (window ?data 3 0)))"
    using full w0 by simp
  moreover have "drawWaveform ?data 3 ! 2 = (1, - 1)"
    using empty w2 by simp
  ultimately show ?thesis unfolding w0 w2 by simp
qed

text \<open>
  Claim C6 as it is written gives an empty window the column (0, 0). The loop starts from
  \<open>min = 1.0\<close> and \<open>max = -1.0\<close> and an empty window leaves them unchanged: for the empty
  array, and for the third of three columns over four samples.
\<close>

theorem drawWaveform_default_column_counterexample:
  "drawWaveform [] 1 = [(1, - 1)] \<and> drawWaveform [] 1 \<noteq> [(0, 0)]
   \<and> drawWaveform [0.5, 0.25, - 0.5, 0] 3 = [(0.25, 0.5), (- 0.5, 0), (1, - 1)]"
  by code_simp

end
